theory Spec2Isabelle
  imports Complex_Main
begin

section \<open>JavaScript strings\<close>

text \<open>
  A JavaScript string is a finite sequence of UTF-16 code units. A code unit is modelled
  as a natural number and a string as a list of them, so that every character the
  program can meet (also the Unicode white space and line terminators that
  \<^verbatim>\<open>trim\<close> and the regular-expression dot treat specially) is a value of the model.
  \<open>js\<close> embeds an ASCII literal.
\<close>

type_synonym jsstring = "nat list"

definition js :: "string \<Rightarrow> jsstring" where
  "js s = map of_char s"

text \<open>\<^verbatim>\<open>\d\<close> without the unicode flag: the ten ASCII digits.\<close>

definition is_digit :: "nat \<Rightarrow> bool" where
  "is_digit c = (48 \<le> c \<and> c \<le> 57)"

text \<open>
  The line terminators of ECMAScript (LF, CR, U+2028, U+2029): the characters that
  the dot of a regular expression does not match.
\<close>

definition is_line_terminator :: "nat \<Rightarrow> bool" where
  "is_line_terminator c = (c = 10 \<or> c = 13 \<or> c = 8232 \<or> c = 8233)"

text \<open>
  The characters removed by \<^verbatim>\<open>String.prototype.trim\<close> and skipped by
  \<^verbatim>\<open>parseFloat\<close>: WhiteSpace (TAB, VT, FF, SP, NBSP, ZWNBSP and the category Zs)
  and the line terminators.
\<close>

definition is_ws :: "nat \<Rightarrow> bool" where
  "is_ws c = (c = 9 \<or> c = 11 \<or> c = 12 \<or> c = 32 \<or> c = 160 \<or> c = 5760
      \<or> (8192 \<le> c \<and> c \<le> 8202) \<or> c = 8239 \<or> c = 8287 \<or> c = 12288 \<or> c = 65279
      \<or> is_line_terminator c)"

definition trim :: "jsstring \<Rightarrow> jsstring" where
  "trim s = rev (dropWhile is_ws (rev (dropWhile is_ws s)))"

text \<open>\<^verbatim>\<open>s.startsWith(p)\<close>.\<close>

definition startsWith :: "jsstring \<Rightarrow> jsstring \<Rightarrow> bool" where
  "startsWith s p = (take (length p) s = p)"

text \<open>
  \<^verbatim>\<open>s.split(sep)\<close> for a one-character separator: the result is never empty, and
  the empty string splits into one empty field.
\<close>

fun split :: "nat \<Rightarrow> jsstring \<Rightarrow> jsstring list" where
  "split sep [] = [[]]"
| "split sep (c # cs) =
     (if c = sep then [] # split sep cs
      else (case split sep cs of
              [] \<Rightarrow> [[c]]
            | p # ps \<Rightarrow> (c # p) # ps))"

text \<open>\<^verbatim>\<open>parts.join(sep)\<close> for a one-character separator.\<close>

fun join :: "nat \<Rightarrow> jsstring list \<Rightarrow> jsstring" where
  "join sep [] = []"
| "join sep [p] = p"
| "join sep (p # q # ps) = p @ sep # join sep (q # ps)"

text \<open>
  \<^verbatim>\<open>s.replace(a, b)\<close> with a string pattern of one character: only the first
  occurrence is replaced.
\<close>

fun replace_first :: "nat \<Rightarrow> nat \<Rightarrow> jsstring \<Rightarrow> jsstring" where
  "replace_first a b [] = []"
| "replace_first a b (c # cs) = (if c = a then b # cs else c # replace_first a b cs)"

text \<open>\<^verbatim>\<open>content.replace(/\r\n/g, '\n')\<close>.\<close>

fun replace_crlf :: "jsstring \<Rightarrow> jsstring" where
  "replace_crlf [] = []"
| "replace_crlf [c] = [c]"
| "replace_crlf (c # d # cs) =
     (if c = 13 \<and> d = 10 then 10 # replace_crlf cs else c # replace_crlf (d # cs))"

section \<open>The regular expressions of the parser\<close>

text \<open>
  Both regular expressions of \<^verbatim>\<open>parseSubtitles\<close> are simple enough to be matched by
  hand. \<^verbatim>\<open>timeRegex\<close> has no repetition of variable length: it is a sequence of 29
  character classes, 12 for each timestamp and 5 for the arrow between them. A pattern of
  this kind is a list of predicates, matched against the front of a string.
\<close>

fun prefix_match :: "(nat \<Rightarrow> bool) list \<Rightarrow> jsstring \<Rightarrow> bool" where
  "prefix_match [] s = True"
| "prefix_match (p # ps) [] = False"
| "prefix_match (p # ps) (c # cs) = (p c \<and> prefix_match ps cs)"

text \<open>\<^verbatim>\<open>\d{2}:\d{2}:\d{2}[,.]\d{3}\<close>\<close>

definition stampPattern :: "(nat \<Rightarrow> bool) list" where
  "stampPattern =
     [is_digit, is_digit, (\<lambda>c. c = 58), is_digit, is_digit, (\<lambda>c. c = 58),
      is_digit, is_digit, (\<lambda>c. c = 44 \<or> c = 46), is_digit, is_digit, is_digit]"

text \<open>\<^verbatim>\<open>(\d{2}:\d{2}:\d{2}[,.]\d{3}) --> (\d{2}:\d{2}:\d{2}[,.]\d{3})\<close>\<close>

definition timeRegex :: "(nat \<Rightarrow> bool) list" where
  "timeRegex = stampPattern @ map (\<lambda>a c. c = a) (js '' --> '') @ stampPattern"

text \<open>
  \<^verbatim>\<open>line.match(timeRegex)\<close>: the regular expression is not anchored, so the match is
  the leftmost one; the result is the pair of the two capture groups, or \<open>None\<close> for
  \<^verbatim>\<open>null\<close>.
\<close>

fun timeMatch :: "jsstring \<Rightarrow> (jsstring \<times> jsstring) option" where
  "timeMatch [] = None"
| "timeMatch (c # cs) =
     (if prefix_match timeRegex (c # cs)
      then Some (take 12 (c # cs), take 12 (drop 17 (c # cs)))
      else timeMatch cs)"

text \<open>
  \<^verbatim>\<open>/\{.*?\}/\<close> at an opening brace: the lazy \<^verbatim>\<open>.*?\<close> stops at the first closing
  brace, and fails when a line terminator comes first (the dot does not match it) or the
  string ends. \<open>find_close\<close> returns what follows the closing brace.
\<close>

fun find_close :: "jsstring \<Rightarrow> jsstring option" where
  "find_close [] = None"
| "find_close (c # cs) =
     (if c = 125 then Some cs
      else if is_line_terminator c then None
      else find_close cs)"

text \<open>\<^verbatim>\<open>s.replace(/\{.*?\}/g, '')\<close>: every match, from left to right, is deleted.\<close>

function stripTags :: "jsstring \<Rightarrow> jsstring" where
  "stripTags [] = []"
| "stripTags (c # cs) =
     (if c = 123
      then (case find_close cs of
              Some r \<Rightarrow> stripTags r
            | None \<Rightarrow> c # stripTags cs)
      else c # stripTags cs)"
  by pat_completeness auto
termination
proof (relation "measure length")
  show "wf (measure length)"
    by simp
next
  fix c cs r :: jsstring and x :: nat
  have shorter: "find_close s = Some t \<Longrightarrow> length t < Suc (length s)" for s t
    by (induction s) (auto split: if_splits)
  assume "find_close cs = Some r"
  then show "(r, x # cs) \<in> measure length"
    using shorter [of cs r] by simp
qed simp_all

text \<open>
  \<^verbatim>\<open>/\{.*?\}/.test(s)\<close>: whether the regular expression of the override tags has a
  match somewhere in the string.
\<close>

fun hasTag :: "jsstring \<Rightarrow> bool" where
  "hasTag [] = False"
| "hasTag (c # cs) = ((c = 123 \<and> find_close cs \<noteq> None) \<or> hasTag cs)"

section \<open>Cues and the parser\<close>

text \<open>
  A cue is the object \<^verbatim>\<open>{ start, end, text }\<close> that \<^verbatim>\<open>parseSubtitles\<close> pushes
  (the field names carry a prefix, \<open>end\<close> and \<open>text\<close> being keywords here).
\<close>

record cue =
  cue_start :: jsstring
  cue_end :: jsstring
  cue_text :: jsstring

text \<open>
  The body of the \<^verbatim>\<open>forEach\<close> of the \<^verbatim>\<open>.srt\<close>/\<^verbatim>\<open>.vtt\<close> branch. The loop state
  is the array \<^verbatim>\<open>result\<close> and the object \<^verbatim>\<open>current\<close>. \<^verbatim>\<open>current\<close> is either
  \<^verbatim>\<open>{}\<close> (\<open>None\<close>) or has all three fields, set together by the first branch; the
  test \<^verbatim>\<open>current.start\<close> is true exactly in the second case, a matched timestamp
  being a non-empty string.
\<close>

fun srtStep :: "cue list \<times> cue option \<Rightarrow> jsstring \<Rightarrow> cue list \<times> cue option" where
  "srtStep (result, current) line =
     (case timeMatch line of
        Some (m1, m2) \<Rightarrow>
          (result, Some \<lparr>cue_start = replace_first 44 46 m1,
                         cue_end = replace_first 44 46 m2,
                         cue_text = []\<rparr>)
      | None \<Rightarrow>
          (case current of
             None \<Rightarrow> (result, None)
           | Some cur \<Rightarrow>
               if trim line = [] then (result @ [cur], None)
               else (result, Some (cur\<lparr>cue_text :=
                       cue_text cur @ (if cue_text cur \<noteq> [] then [32] else []) @ trim line\<rparr>))))"

text \<open>After the loop: \<^verbatim>\<open>if (current.start) result.push(current)\<close>.\<close>

fun srtFinish :: "cue list \<times> cue option \<Rightarrow> cue list" where
  "srtFinish (result, None) = result"
| "srtFinish (result, Some cur) = result @ [cur]"

definition parseSrt :: "jsstring list \<Rightarrow> cue list" where
  "parseSrt lines = srtFinish (foldl srtStep ([], None) lines)"

text \<open>The body of the \<^verbatim>\<open>forEach\<close> of the \<^verbatim>\<open>.ass\<close> branch.\<close>

definition assStep :: "cue list \<Rightarrow> jsstring \<Rightarrow> cue list" where
  "assStep result line =
     (if startsWith line (js ''Dialogue:'')
      then (let parts = split 44 line in
            if 10 \<le> length parts
            then result @ [\<lparr>cue_start = parts ! 1,
                            cue_end = parts ! 2,
                            cue_text = trim (stripTags (join 44 (drop 9 parts)))\<rparr>]
            else result)
      else result)"

definition parseAss :: "jsstring list \<Rightarrow> cue list" where
  "parseAss lines = foldl assStep [] lines"

text \<open>\<^verbatim>\<open>content.replace(/\r\n/g, '\n').split('\n')\<close>\<close>

definition linesOf :: "jsstring \<Rightarrow> jsstring list" where
  "linesOf content = split 10 (replace_crlf content)"

definition parseSubtitles :: "jsstring \<Rightarrow> jsstring \<Rightarrow> cue list" where
  "parseSubtitles content extension =
     (let lines = linesOf content in
      if extension = js ''.srt'' \<or> extension = js ''.vtt'' then parseSrt lines
      else if extension = js ''.ass'' then parseAss lines
      else [])"

section \<open>JavaScript numbers\<close>

text \<open>
  A JavaScript number is an IEEE double. The model keeps its three kinds of value, with
  the finite ones idealised as exact rationals: rounding, overflow to an infinity and the
  sign of zero are not modelled. The comparisons and the propagation of \<^verbatim>\<open>NaN\<close> are
  those of the language.

  The general statements about the reader below rest on the comparisons only, never on a
  law of the arithmetic such as \<open>x < x + 1/100\<close>, which rounding can break for a large
  \<open>x\<close>. Sums, products and quotients are evaluated on the literals of the sample documents
  only, where the double and the rational stand in the same order to the values they are
  compared with.
\<close>

datatype jsnum = NaN | NegInf | Fin rat | PosInf

fun is_neg :: "jsnum \<Rightarrow> bool" where
  "is_neg NegInf = True"
| "is_neg (Fin a) = (a < 0)"
| "is_neg _ = False"

fun js_neg :: "jsnum \<Rightarrow> jsnum" where
  "js_neg NaN = NaN"
| "js_neg NegInf = PosInf"
| "js_neg (Fin a) = Fin (- a)"
| "js_neg PosInf = NegInf"

fun js_add :: "jsnum \<Rightarrow> jsnum \<Rightarrow> jsnum" where
  "js_add (Fin a) (Fin b) = Fin (a + b)"
| "js_add x y =
     (if x = NaN \<or> y = NaN \<or> (x = PosInf \<and> y = NegInf) \<or> (x = NegInf \<and> y = PosInf) then NaN
      else if x = PosInf \<or> y = PosInf then PosInf
      else NegInf)"

definition js_sub :: "jsnum \<Rightarrow> jsnum \<Rightarrow> jsnum" where
  "js_sub x y = js_add x (js_neg y)"

fun js_mul :: "jsnum \<Rightarrow> jsnum \<Rightarrow> jsnum" where
  "js_mul (Fin a) (Fin b) = Fin (a * b)"
| "js_mul x y =
     (if x = NaN \<or> y = NaN \<or> x = Fin 0 \<or> y = Fin 0 then NaN
      else if is_neg x = is_neg y then PosInf
      else NegInf)"

fun js_div :: "jsnum \<Rightarrow> jsnum \<Rightarrow> jsnum" where
  "js_div (Fin a) (Fin b) =
     (if b \<noteq> 0 then Fin (a / b)
      else if a = 0 then NaN
      else if a < 0 then NegInf
      else PosInf)"
| "js_div (Fin a) y = (if y = NaN then NaN else Fin 0)"
| "js_div x (Fin b) = (if x = NaN then NaN else if is_neg x = (b < 0) then PosInf else NegInf)"
| "js_div x y = NaN"

text \<open>\<^verbatim>\<open>x < y\<close>, false as soon as one side is \<^verbatim>\<open>NaN\<close>.\<close>

fun js_lt :: "jsnum \<Rightarrow> jsnum \<Rightarrow> bool" where
  "js_lt (Fin a) (Fin b) = (a < b)"
| "js_lt NegInf (Fin b) = True"
| "js_lt NegInf PosInf = True"
| "js_lt (Fin a) PosInf = True"
| "js_lt x y = False"

definition js_gt :: "jsnum \<Rightarrow> jsnum \<Rightarrow> bool" where
  "js_gt x y = js_lt y x"

text \<open>\<^verbatim>\<open>x <= y\<close> is "not \<^verbatim>\<open>y < x\<close>", except that it is false on \<^verbatim>\<open>NaN\<close>.\<close>

definition js_le :: "jsnum \<Rightarrow> jsnum \<Rightarrow> bool" where
  "js_le x y = (x \<noteq> NaN \<and> y \<noteq> NaN \<and> \<not> js_lt y x)"

definition js_ge :: "jsnum \<Rightarrow> jsnum \<Rightarrow> bool" where
  "js_ge x y = (x \<noteq> NaN \<and> y \<noteq> NaN \<and> \<not> js_lt x y)"

subsection \<open>parseFloat\<close>

definition digitsVal :: "jsstring \<Rightarrow> nat" where
  "digitsVal ds = foldl (\<lambda>a c. 10 * a + (c - 48)) 0 ds"

text \<open>An optional sign in front: whether it is a minus, and the rest.\<close>

fun parseSign :: "jsstring \<Rightarrow> bool \<times> jsstring" where
  "parseSign [] = (False, [])"
| "parseSign (c # cs) =
     (if c = 45 then (True, cs) else if c = 43 then (False, cs) else (False, c # cs))"

text \<open>
  The value of an ExponentPart (\<^verbatim>\<open>e\<close> or \<^verbatim>\<open>E\<close>, an optional sign, at least one digit)
  in front of the string; 0 when there is none.
\<close>

fun parseExponent :: "jsstring \<Rightarrow> int" where
  "parseExponent [] = 0"
| "parseExponent (c # cs) =
     (if c = 101 \<or> c = 69
      then (let (neg, r) = parseSign cs; ds = takeWhile is_digit r in
            if ds = [] then 0
            else if neg then - int (digitsVal ds)
            else int (digitsVal ds))
      else 0)"

definition scale10 :: "rat \<Rightarrow> int \<Rightarrow> rat" where
  "scale10 m e = (if 0 \<le> e then m * 10 ^ nat e else m / 10 ^ nat (- e))"

text \<open>
  \<^verbatim>\<open>parseFloat(s)\<close>: leading white space is skipped, then the longest prefix that is
  a StrDecimalLiteral is read (a sign, then \<^verbatim>\<open>Infinity\<close> or digits with an optional
  fraction and exponent, a digit being required before or after the point); what follows
  is ignored, and \<^verbatim>\<open>NaN\<close> is returned when there is no such prefix.
\<close>

definition parseFloat :: "jsstring \<Rightarrow> jsnum" where
  "parseFloat inp =
     (let (neg, r) = parseSign (dropWhile is_ws inp) in
      if startsWith r (js ''Infinity'') then (if neg then NegInf else PosInf)
      else (let ip = takeWhile is_digit r;
                r1 = dropWhile is_digit r;
                hasPoint = (r1 \<noteq> [] \<and> hd r1 = 46);
                fp = (if hasPoint then takeWhile is_digit (tl r1) else []);
                r2 = (if hasPoint then dropWhile is_digit (tl r1) else r1)
            in if ip = [] \<and> fp = [] then NaN
               else (let m = scale10 (of_nat (digitsVal (ip @ fp))) (- int (length fp));
                         v = scale10 m (parseExponent r2)
                     in Fin (if neg then - v else v))))"

text \<open>
  An argument that may be \<^verbatim>\<open>undefined\<close> (\<open>None\<close>): \<^verbatim>\<open>parseFloat\<close> converts it to
  the string \<^verbatim>\<open>"undefined"\<close> first.
\<close>

fun parseFloatArg :: "jsstring option \<Rightarrow> jsnum" where
  "parseFloatArg None = parseFloat (js ''undefined'')"
| "parseFloatArg (Some s) = parseFloat s"

text \<open>An array element, \<^verbatim>\<open>undefined\<close> out of range.\<close>

definition element :: "'a list \<Rightarrow> nat \<Rightarrow> 'a option" where
  "element xs i = (if i < length xs then Some (xs ! i) else None)"

text \<open>
  \<^verbatim>\<open>
  const timeToSeconds = (timeStr: string) => {
    const [h, m, s] = timeStr.split(':');
    return parseFloat(h) * 3600 + parseFloat(m) * 60 + parseFloat(s);
  };\<close>
\<close>

definition timeToSeconds :: "jsstring \<Rightarrow> jsnum" where
  "timeToSeconds timeStr =
     (let parts = split 58 timeStr;
          h = element parts 0; m = element parts 1; s = element parts 2
      in js_add (js_add (js_mul (parseFloatArg h) (Fin 3600)) (js_mul (parseFloatArg m) (Fin 60)))
           (parseFloatArg s))"

section \<open>The reader: playback clock, active cue, translation cache\<close>

text \<open>
  The state of the component \<^verbatim>\<open>ReaderView\<close>: its \<^verbatim>\<open>useState\<close> cells under their
  own names, \<^verbatim>\<open>data\<close> reduced to the cue list \<^verbatim>\<open>data.parsed_json\<close> (\<open>None\<close> while
  \<^verbatim>\<open>data\<close> is \<^verbatim>\<open>null\<close>). Two more fields record what the code keeps outside the
  cells: \<open>timer\<close> is the \<^verbatim>\<open>startTime\<close> of the running interval (\<open>None\<close> when no
  interval is set), and \<open>requests\<close> lists the cue texts of the \<^verbatim>\<open>generateContent\<close>
  calls sent so far for line translations.

  The cell \<^verbatim>\<open>translations\<close> is the field \<open>lineTranslations\<close>, its own name being
  a keyword here.

  An effect, the interval callback and the handlers of the controls are functions of the
  state committed before they run. \<^verbatim>\<open>handleTranslate\<close> is called from another handler
  and tests cells in its guard, so its model keeps two states apart: the render whose
  closure the call belongs to, from which \<^verbatim>\<open>data\<close>, \<^verbatim>\<open>translations\<close> and
  \<^verbatim>\<open>isTranslating\<close> are read as the constants they are there, and the state to which
  its updates are applied. A call sees the updates of an earlier call only when the
  component has rendered again in between.
\<close>

record reader =
  data :: "cue list option"
  isPlaying :: bool
  currentTime :: jsnum
  activeLineIndex :: "nat option"
  lineTranslations :: "nat \<rightharpoonup> jsstring"
  isTranslating :: bool
  selectedWord :: "(jsstring \<times> nat) option"
  timer :: "jsnum option"
  requests :: "jsstring list"

datatype error = TypeError

text \<open>
  \<^verbatim>\<open>
  const totalDuration = data?.parsed_json.length
    ? timeToSeconds(data.parsed_json[data.parsed_json.length - 1].end)
    : 0;\<close>
\<close>

definition totalDuration :: "reader \<Rightarrow> jsnum" where
  "totalDuration s =
     (case data s of
        None \<Rightarrow> Fin 0
      | Some parsed_json \<Rightarrow>
          if parsed_json = [] then Fin 0 else timeToSeconds (cue_end (last parsed_json)))"

text \<open>
  The effect on \<^verbatim>\<open>[isPlaying, totalDuration]\<close>, run at the time \<open>now\<close>
  (\<^verbatim>\<open>Date.now()\<close>, in milliseconds): it sets the interval, with its origin, or clears it.
\<close>

definition playbackEffect :: "jsnum \<Rightarrow> reader \<Rightarrow> reader" where
  "playbackEffect now s =
     (if isPlaying s
      then s\<lparr>timer := Some (js_sub now (js_mul (currentTime s) (Fin 1000)))\<rparr>
      else s\<lparr>timer := None\<rparr>)"

text \<open>The callback of the interval, run at the time \<open>now\<close>.\<close>

definition tick :: "jsnum \<Rightarrow> reader \<Rightarrow> reader" where
  "tick now s =
     (case timer s of
        None \<Rightarrow> s
      | Some startTime \<Rightarrow>
          (let elapsed = js_div (js_sub now startTime) (Fin 1000) in
           if js_ge elapsed (totalDuration s)
           then s\<lparr>isPlaying := False, currentTime := totalDuration s, timer := None\<rparr>
           else s\<lparr>currentTime := elapsed\<rparr>))"

text \<open>\<^verbatim>\<open>Array.prototype.findIndex\<close>, with \<open>None\<close> for -1.\<close>

fun findIndex :: "('a \<Rightarrow> bool) \<Rightarrow> 'a list \<Rightarrow> nat option" where
  "findIndex p [] = None"
| "findIndex p (x # xs) = (if p x then Some 0 else map_option Suc (findIndex p xs))"

text \<open>
  The effect on \<^verbatim>\<open>[currentTime, data, activeLineIndex]\<close>, the resolver of the active
  cue.
\<close>

definition resolver :: "reader \<Rightarrow> reader" where
  "resolver s =
     (case data s of
        None \<Rightarrow> s
      | Some parsed_json \<Rightarrow>
          (case findIndex (\<lambda>line. js_ge (currentTime s) (timeToSeconds (cue_start line))
                                 \<and> js_le (currentTime s) (timeToSeconds (cue_end line)))
                  parsed_json of
             None \<Rightarrow> s
           | Some index \<Rightarrow>
               if Some index \<noteq> activeLineIndex s then s\<lparr>activeLineIndex := Some index\<rparr>
               else s))"

text \<open>
  \<^verbatim>\<open>handleTranslate\<close> is asynchronous. Its first part runs up to the \<^verbatim>\<open>await\<close>: it
  returns at once, or raises the flag and sends the request. The guard reads the cells of
  the render the call belongs to; \<^verbatim>\<open>translations[index]\<close> is tested for truth, so
  that a missing entry and an empty string both let the call go on. An index out of range
  makes \<^verbatim>\<open>data.parsed_json[index].text\<close> throw.
\<close>

definition truthy :: "jsstring option \<Rightarrow> bool" where
  "truthy v = (case v of None \<Rightarrow> False | Some t \<Rightarrow> t \<noteq> [])"

definition handleTranslate :: "nat \<Rightarrow> reader \<Rightarrow> reader \<Rightarrow> error + reader" where
  "handleTranslate index render s =
     (case data render of
        None \<Rightarrow> Inr s
      | Some parsed_json \<Rightarrow>
          if truthy (lineTranslations render index) \<or> isTranslating render then Inr s
          else (case element parsed_json index of
                  None \<Rightarrow> Inl TypeError
                | Some line \<Rightarrow>
                    if trim (cue_text line) = [] then Inr s
                    else Inr (s\<lparr>isTranslating := True,
                                requests := requests s @ [cue_text line]\<rparr>)))"

text \<open>
  Its second part runs when the request settles: with a response, whose \<^verbatim>\<open>text\<close> may
  be \<^verbatim>\<open>undefined\<close>, the entry \<^verbatim>\<open>response.text?.trim() || ""\<close> is stored; a failure is
  only logged; the flag is lowered in both cases.
\<close>

datatype outcome = Fulfilled "jsstring option" | Rejected

fun translateSettled :: "nat \<Rightarrow> outcome \<Rightarrow> reader \<Rightarrow> reader" where
  "translateSettled index (Fulfilled t) s =
     s\<lparr>lineTranslations := (lineTranslations s)(index \<mapsto> (case t of None \<Rightarrow> [] | Some x \<Rightarrow> trim x)),
       isTranslating := False\<rparr>"
| "translateSettled index Rejected s = s\<lparr>isTranslating := False\<rparr>"

text \<open>
  \<^verbatim>\<open>handleJumpToLine\<close>, the click on a line, run in the render of the committed state
  \<open>s\<close>; its call of \<^verbatim>\<open>handleTranslate\<close> belongs to the same render. The promise of
  \<^verbatim>\<open>handleTranslate\<close> is dropped, so its rejection does not reach the caller.
\<close>

definition handleJumpToLine :: "nat \<Rightarrow> reader \<Rightarrow> error + reader" where
  "handleJumpToLine index s =
     (case data s of
        None \<Rightarrow> Inr s
      | Some parsed_json \<Rightarrow>
          (case element parsed_json index of
             None \<Rightarrow> Inl TypeError
           | Some line \<Rightarrow>
               (let startTime = timeToSeconds (cue_start line);
                    s' = s\<lparr>currentTime := js_add startTime (Fin (1 / 100)),
                           activeLineIndex := Some index,
                           selectedWord := None\<rparr>
                in case handleTranslate index s s' of
                     Inl e \<Rightarrow> Inr s'
                   | Inr s'' \<Rightarrow> Inr s'')))"

text \<open>
  The range input: \<^verbatim>\<open>onChange={(e) => setCurrentTime(parseFloat(e.target.value))}\<close>.
\<close>

definition seekInput :: "jsstring \<Rightarrow> reader \<Rightarrow> reader" where
  "seekInput v s = s\<lparr>currentTime := parseFloat v\<rparr>"

definition togglePlay :: "reader \<Rightarrow> reader" where
  "togglePlay s = s\<lparr>isPlaying := \<not> isPlaying s\<rparr>"

definition resetPlayback :: "reader \<Rightarrow> reader" where
  "resetPlayback s = s\<lparr>isPlaying := False, currentTime := Fin 0, activeLineIndex := None\<rparr>"

section \<open>Initial state and sample documents\<close>

text \<open>
  The state of a reader whose document has been fetched: the initial values of the
  \<^verbatim>\<open>useState\<close> cells, with \<^verbatim>\<open>data\<close> set.
\<close>

definition loaded :: "cue list \<Rightarrow> reader" where
  "loaded parsed_json =
     \<lparr>data = Some parsed_json, isPlaying = False, currentTime = Fin 0,
      activeLineIndex = None, lineTranslations = Map.empty, isTranslating = False,
      selectedWord = None, timer = None, requests = []\<rparr>"

text \<open>
  The two cues of the specification's example, a pair of cues that share a boundary, and a
  document whose only cue lasts five milliseconds.
\<close>

definition demoCues :: "cue list" where
  "demoCues =
     [\<lparr>cue_start = js ''00:00:00.000'', cue_end = js ''00:00:02.000'', cue_text = js ''Hello''\<rparr>,
      \<lparr>cue_start = js ''00:00:02.500'', cue_end = js ''00:00:04.000'', cue_text = js ''World''\<rparr>]"


definition shortCue :: "cue list" where
  "shortCue =
     [\<lparr>cue_start = js ''00:00:01.000'', cue_end = js ''00:00:01.005'', cue_text = js ''Hi''\<rparr>]"


definition shortSrt :: jsstring where
  "shortSrt = js ''1\<newline>00:00:01,000 --> 00:00:01,005\<newline>Hi\<newline>''"

text \<open>
  Sample documents: the example as an \<^verbatim>\<open>.srt\<close> file, a file with a block that has no
  text, a file whose only block ends before it starts, a file with two timecode lines and
  no blank line between them together with what is left of it without the first block,
  and an \<^verbatim>\<open>.ass\<close> file with a dialogue line of nine fields and the dialogue line of the
  specification.
\<close>

definition demoSrt :: jsstring where
  "demoSrt = js ''1\<newline>00:00:00,000 --> 00:00:02,000\<newline>Hello\<newline>\<newline>2\<newline>00:00:02.500 --> 00:00:04.000\<newline>World\<newline>''"

definition blankBlockSrt :: jsstring where
  "blankBlockSrt = js ''1\<newline>00:00:01,000 --> 00:00:02,000\<newline>\<newline>2\<newline>00:00:03,000 --> 00:00:04,000\<newline>Hi\<newline>''"

definition reversedSrt :: jsstring where
  "reversedSrt = js ''1\<newline>00:00:05,000 --> 00:00:01,000\<newline>Hi\<newline>''"

definition runOnSrt :: jsstring where
  "runOnSrt = js ''00:00:01,000 --> 00:00:02,000\<newline>first\<newline>00:00:03,000 --> 00:00:04,000\<newline>second''"

definition runOnTail :: jsstring where
  "runOnTail = js ''00:00:03,000 --> 00:00:04,000\<newline>second''"

definition demoAss :: jsstring where
  "demoAss =
     js ''[Events]\<newline>Dialogue: 0,0:00:00.00,0:00:01.00,Default,,0,0,0,too short\<newline>Dialogue: 0,0:00:01.00,0:00:03.00,Default,,0,0,0,,{''
     @ [92] @ js ''i1}Hi there{'' @ [92] @ js ''i0}''"

text \<open>
  The canonical form of a timestamp, \<^verbatim>\<open>HH:MM:SS.mmm\<close>: twelve characters, digits
  but for the two colons and the period.
\<close>

definition canonPattern :: "(nat \<Rightarrow> bool) list" where
  "canonPattern =
     [is_digit, is_digit, (\<lambda>c. c = 58), is_digit, is_digit, (\<lambda>c. c = 58),
      is_digit, is_digit, (\<lambda>c. c = 46), is_digit, is_digit, is_digit]"

definition canonical :: "jsstring \<Rightarrow> bool" where
  "canonical t = (length t = 12 \<and> prefix_match canonPattern t)"

section \<open>Auxiliary lemmas\<close>

subsection \<open>Evaluation on literals\<close>

lemmas js_eval =
  js_def is_digit_def is_ws_def is_line_terminator_def trim_def startsWith_def
  timeToSeconds_def parseFloat_def element_def scale10_def digitsVal_def

lemma demo_seconds:
  "timeToSeconds (js ''00:00:00.000'') = Fin 0"
  "timeToSeconds (js ''00:00:02.000'') = Fin 2"
  "timeToSeconds (js ''00:00:02.500'') = Fin (5 / 2)"
  "timeToSeconds (js ''00:00:04.000'') = Fin 4"
  by (simp_all add: js_eval)

lemma short_seconds:
  "timeToSeconds (js ''00:00:01.000'') = Fin 1"
  "timeToSeconds (js ''00:00:01.005'') = Fin (201 / 200)"
  "timeToSeconds (js ''00:00:05.000'') = Fin 5"
  by (simp_all add: js_eval)

lemmas srt_eval =
  parseSubtitles_def parseSrt_def linesOf_def timeRegex_def stampPattern_def js_eval

lemma demoSrt_lines:
  "linesOf demoSrt =
     [js ''1'', js ''00:00:00,000 --> 00:00:02,000'', js ''Hello'', [],
      js ''2'', js ''00:00:02.500 --> 00:00:04.000'', js ''World'', []]"
  by (simp add: demoSrt_def linesOf_def js_def)

lemma demoSrt_parsed: "parseSubtitles demoSrt (js ''.srt'') = demoCues"
  by (simp add: demoSrt_lines demoCues_def parseSubtitles_def parseSrt_def timeRegex_def
      stampPattern_def js_eval)

subsection \<open>The sequential-block parser\<close>

lemma srtStep_invariant:
  assumes new: "\<And>m1 m2. timeMatch line = Some (m1, m2) \<Longrightarrow>
      Q \<lparr>cue_start = replace_first 44 46 m1, cue_end = replace_first 44 46 m2, cue_text = []\<rparr>"
    and app: "\<And>cur. Q cur \<Longrightarrow> trim line \<noteq> [] \<Longrightarrow>
      Q (cur\<lparr>cue_text := cue_text cur @ (if cue_text cur \<noteq> [] then [32] else []) @ trim line\<rparr>)"
    and res: "\<forall>c\<in>set result. Q c"
    and cur: "\<forall>c. current = Some c \<longrightarrow> Q c"
  shows "(\<forall>c\<in>set (fst (srtStep (result, current) line)). Q c)
       \<and> (\<forall>c. snd (srtStep (result, current) line) = Some c \<longrightarrow> Q c)"
proof (cases "timeMatch line")
  case (Some m)
  obtain m1 m2 where "m = (m1, m2)" by (cases m)
  with Some new [of m1 m2] res show ?thesis by simp
next
  case None
  show ?thesis
  proof (cases current)
    case no: None
    with None res show ?thesis by simp
  next
    case (Some c)
    with cur have "Q c" by simp
    with None Some res app [of c] show ?thesis by simp
  qed
qed

lemma foldl_srtStep_invariant:
  assumes new: "\<And>line m1 m2. line \<in> set lines \<Longrightarrow> timeMatch line = Some (m1, m2) \<Longrightarrow>
      Q \<lparr>cue_start = replace_first 44 46 m1, cue_end = replace_first 44 46 m2, cue_text = []\<rparr>"
    and app: "\<And>line cur. line \<in> set lines \<Longrightarrow> Q cur \<Longrightarrow> trim line \<noteq> [] \<Longrightarrow>
      Q (cur\<lparr>cue_text := cue_text cur @ (if cue_text cur \<noteq> [] then [32] else []) @ trim line\<rparr>)"
    and res: "\<forall>c\<in>set (fst st). Q c"
    and cur: "\<forall>c. snd st = Some c \<longrightarrow> Q c"
  shows "(\<forall>c\<in>set (fst (foldl srtStep st lines)). Q c)
       \<and> (\<forall>c. snd (foldl srtStep st lines) = Some c \<longrightarrow> Q c)"
  using assms
proof (induction lines arbitrary: st)
  case Nil
  then show ?case by simp
next
  case (Cons line lines)
  obtain result current where st: "st = (result, current)" by (cases st)
  have step: "(\<forall>c\<in>set (fst (srtStep st line)). Q c)
       \<and> (\<forall>c. snd (srtStep st line) = Some c \<longrightarrow> Q c)"
    unfolding st
  proof (rule srtStep_invariant)
    show "\<And>m1 m2. timeMatch line = Some (m1, m2) \<Longrightarrow>
      Q \<lparr>cue_start = replace_first 44 46 m1, cue_end = replace_first 44 46 m2, cue_text = []\<rparr>"
      using Cons.prems(1) [of line] by simp
    show "\<And>cur. Q cur \<Longrightarrow> trim line \<noteq> [] \<Longrightarrow>
      Q (cur\<lparr>cue_text := cue_text cur @ (if cue_text cur \<noteq> [] then [32] else []) @ trim line\<rparr>)"
      using Cons.prems(2) [of line] by simp
    show "\<forall>c\<in>set result. Q c" using Cons.prems(3) st by simp
    show "\<forall>c. current = Some c \<longrightarrow> Q c" using Cons.prems(4) st by simp
  qed
  have new': "Q \<lparr>cue_start = replace_first 44 46 m1, cue_end = replace_first 44 46 m2, cue_text = []\<rparr>"
    if "l \<in> set lines" "timeMatch l = Some (m1, m2)" for l m1 m2
    using Cons.prems(1) [of l m1 m2] that by simp
  have app': "Q (cur\<lparr>cue_text := cue_text cur @ (if cue_text cur \<noteq> [] then [32] else []) @ trim l\<rparr>)"
    if "l \<in> set lines" "Q cur" "trim l \<noteq> []" for l cur
    using Cons.prems(2) [of l cur] that by simp
  have "(\<forall>c\<in>set (fst (foldl srtStep (srtStep st line) lines)). Q c)
       \<and> (\<forall>c. snd (foldl srtStep (srtStep st line) lines) = Some c \<longrightarrow> Q c)"
    using step by (intro Cons.IH new' app') simp_all
  then show ?case by simp
qed

lemma parseSrt_invariant:
  assumes new: "\<And>line m1 m2. line \<in> set lines \<Longrightarrow> timeMatch line = Some (m1, m2) \<Longrightarrow>
      Q \<lparr>cue_start = replace_first 44 46 m1, cue_end = replace_first 44 46 m2, cue_text = []\<rparr>"
    and app: "\<And>line cur. line \<in> set lines \<Longrightarrow> Q cur \<Longrightarrow> trim line \<noteq> [] \<Longrightarrow>
      Q (cur\<lparr>cue_text := cue_text cur @ (if cue_text cur \<noteq> [] then [32] else []) @ trim line\<rparr>)"
    and c: "c \<in> set (parseSrt lines)"
  shows "Q c"
proof -
  obtain result current where f: "foldl srtStep ([], None) lines = (result, current)"
    by (cases "foldl srtStep ([], None) lines")
  have "(\<forall>c\<in>set (fst (foldl srtStep ([], None) lines)). Q c)
       \<and> (\<forall>c. snd (foldl srtStep ([], None) lines) = Some c \<longrightarrow> Q c)"
    by (rule foldl_srtStep_invariant) (use new app in simp_all)
  with f have "(\<forall>c\<in>set result. Q c) \<and> (\<forall>c. current = Some c \<longrightarrow> Q c)" by simp
  with c f show ?thesis
    by (cases current) (auto simp: parseSrt_def)
qed

lemma prefix_match_append:
  "prefix_match (ps @ qs) s \<longleftrightarrow> prefix_match ps s \<and> prefix_match qs (drop (length ps) s)"
proof (induction ps s rule: prefix_match.induct)
  case (1 s)
  show ?case by simp
next
  case (2 p ps)
  show ?case by simp
next
  case (3 p ps c cs)
  then show ?case by auto
qed

lemma prefix_match_take:
  "prefix_match ps s \<Longrightarrow> prefix_match ps (take (length ps) s) \<and> length (take (length ps) s) = length ps"
  by (induction ps s rule: prefix_match.induct) auto

lemma timeMatch_groups:
  "timeMatch s = Some (m1, m2) \<Longrightarrow>
     prefix_match stampPattern m1 \<and> length m1 = 12 \<and> prefix_match stampPattern m2 \<and> length m2 = 12"
proof (induction s)
  case Nil
  then show ?case by simp
next
  case (Cons c cs)
  show ?case
  proof (cases "prefix_match timeRegex (c # cs)")
    case False
    with Cons show ?thesis by simp
  next
    case True
    have len: "length stampPattern = 12" by (simp add: stampPattern_def)
    from True have a: "prefix_match stampPattern (c # cs)"
      and b: "prefix_match stampPattern (drop 17 (c # cs))"
      unfolding timeRegex_def prefix_match_append by (simp_all add: len js_def)
    from True Cons.prems have m: "m1 = take 12 (c # cs)" "m2 = take 12 (drop 17 (c # cs))"
      by simp_all
    from prefix_match_take [OF a] prefix_match_take [OF b] show ?thesis
      unfolding m len by simp
  qed
qed

lemma prefix_match_ConsD:
  "prefix_match (p # ps) s \<Longrightarrow> \<exists>c cs. s = c # cs \<and> p c \<and> prefix_match ps cs"
  by (cases s) simp_all

lemma stamp_normalised:
  assumes "prefix_match stampPattern m" "length m = 12"
  shows "canonical (replace_first 44 46 m)"
proof -
  from assms(1) obtain a b c d e f g h i j k l r where
    m: "m = a # b # c # d # e # f # g # h # i # j # k # l # r"
    and cls: "is_digit a" "is_digit b" "c = 58" "is_digit d" "is_digit e" "f = 58"
      "is_digit g" "is_digit h" "i = 44 \<or> i = 46" "is_digit j" "is_digit k" "is_digit l"
    unfolding stampPattern_def by (blast dest!: prefix_match_ConsD)
  from assms(2) m have r: "r = []" by simp
  from cls have ne: "a \<noteq> 44" "b \<noteq> 44" "d \<noteq> 44" "e \<noteq> 44" "g \<noteq> 44" "h \<noteq> 44"
    "j \<noteq> 44" "k \<noteq> 44" "l \<noteq> 44"
    by (auto simp: is_digit_def)
  show ?thesis
    using cls ne unfolding m r canonical_def canonPattern_def by auto
qed

lemma last_dropWhile: "dropWhile P xs \<noteq> [] \<Longrightarrow> last (dropWhile P xs) = last xs"
  by (induction xs) (auto split: if_splits)

lemma trim_ends:
  assumes "trim s \<noteq> []"
  shows "\<not> is_ws (hd (trim s)) \<and> \<not> is_ws (last (trim s))"
proof -
  let ?d = "dropWhile is_ws s"
  let ?e = "dropWhile is_ws (rev ?d)"
  from assms have e: "?e \<noteq> []" by (simp add: trim_def)
  then have d: "?d \<noteq> []" by (metis dropWhile.simps(1) rev.simps(1))
  have "last (trim s) = hd ?e" using e by (simp add: trim_def last_rev)
  moreover have "\<not> is_ws (hd ?e)" using e by (rule hd_dropWhile)
  moreover have "hd (trim s) = last ?e" using e by (simp add: trim_def hd_rev)
  moreover have "last ?e = hd ?d" using e d by (simp add: last_dropWhile last_rev)
  moreover have "\<not> is_ws (hd ?d)" using d by (rule hd_dropWhile)
  ultimately show ?thesis by simp
qed

lemma trim_fixed:
  assumes "t = [] \<or> (\<not> is_ws (hd t) \<and> \<not> is_ws (last t))"
  shows "trim t = t"
proof (cases "t = []")
  case True
  then show ?thesis by (simp add: trim_def)
next
  case False
  with assms have h: "\<not> is_ws (hd t)" and l: "\<not> is_ws (last t)" by simp_all
  from False h have "dropWhile is_ws t = t" by (cases t) simp_all
  moreover from False l have "dropWhile is_ws (rev t) = rev t"
    by (cases "rev t") (simp_all add: hd_rev [symmetric])
  ultimately show ?thesis by (simp add: trim_def)
qed

lemma parseSrt_text_ends:
  assumes "c \<in> set (parseSrt lines)"
  shows "cue_text c = [] \<or> (\<not> is_ws (hd (cue_text c)) \<and> \<not> is_ws (last (cue_text c)))"
proof (rule parseSrt_invariant [where c = c and lines = lines])
  fix line m1 m2
  show "cue_text \<lparr>cue_start = replace_first 44 46 m1, cue_end = replace_first 44 46 m2,
          cue_text = []\<rparr> = []
      \<or> (\<not> is_ws (hd (cue_text \<lparr>cue_start = replace_first 44 46 m1,
            cue_end = replace_first 44 46 m2, cue_text = []\<rparr>))
        \<and> \<not> is_ws (last (cue_text \<lparr>cue_start = replace_first 44 46 m1,
            cue_end = replace_first 44 46 m2, cue_text = []\<rparr>)))"
    by simp
next
  fix line :: jsstring and cur :: cue
  let ?t = "cue_text cur @ (if cue_text cur \<noteq> [] then [32] else []) @ trim line"
  assume cur: "cue_text cur = [] \<or> (\<not> is_ws (hd (cue_text cur)) \<and> \<not> is_ws (last (cue_text cur)))"
    and line: "trim line \<noteq> []"
  from trim_ends [OF line] cur line
  have "\<not> is_ws (hd ?t) \<and> \<not> is_ws (last ?t)"
    by (cases "cue_text cur = []") simp_all
  then show "cue_text (cur\<lparr>cue_text := ?t\<rparr>) = []
      \<or> (\<not> is_ws (hd (cue_text (cur\<lparr>cue_text := ?t\<rparr>)))
        \<and> \<not> is_ws (last (cue_text (cur\<lparr>cue_text := ?t\<rparr>))))"
    by simp
next
  show "c \<in> set (parseSrt lines)" by (rule assms)
qed

lemma srtStep_timecode:
  "timeMatch line = Some (m1, m2) \<Longrightarrow>
   srtStep (result, current) line =
     (result, Some \<lparr>cue_start = replace_first 44 46 m1, cue_end = replace_first 44 46 m2,
                    cue_text = []\<rparr>)"
  by simp

lemma foldl_srtStep_no_blank:
  "\<forall>m\<in>set mid. trim m \<noteq> [] \<Longrightarrow> fst (foldl srtStep (result, current) mid) = result"
proof (induction mid arbitrary: current)
  case Nil
  show ?case by simp
next
  case (Cons m mid)
  from Cons.prems have m: "trim m \<noteq> []" and rest: "\<forall>m\<in>set mid. trim m \<noteq> []" by simp_all
  from m obtain current' where "srtStep (result, current) m = (result, current')"
    by (cases "timeMatch m"; cases current) auto
  with Cons.IH [OF rest, of current'] show ?case by simp
qed

lemma foldl_srtStep_skip:
  assumes l1: "timeMatch l1 \<noteq> None"
    and l2: "timeMatch l2 = Some (m1, m2)"
    and mid: "\<forall>m\<in>set mid. trim m \<noteq> []"
  shows "foldl srtStep st (pre @ l1 # mid @ l2 # post) = foldl srtStep st (pre @ l2 # post)"
proof -
  obtain r c where p: "foldl srtStep st pre = (r, c)"
    by (cases "foldl srtStep st pre")
  from l1 obtain c1 where s1: "srtStep (r, c) l1 = (r, c1)"
    by (cases "timeMatch l1") auto
  obtain c2 where s2: "foldl srtStep (r, c1) mid = (r, c2)"
    using foldl_srtStep_no_blank [OF mid, of r c1] by (cases "foldl srtStep (r, c1) mid") simp
  have "srtStep (r, c2) l2 = srtStep (r, c) l2"
    by (simp only: srtStep_timecode [OF l2])
  then show ?thesis
    by (simp add: p s1 s2 del: srtStep.simps)
qed

lemma join_snoc: "join sep (xs @ [x]) = (if xs = [] then x else join sep xs @ sep # x)"
  by (induction sep xs rule: join.induct) simp_all

lemma join_nonempty: "xs \<noteq> [] \<Longrightarrow> \<forall>x\<in>set xs. x \<noteq> [] \<Longrightarrow> join sep xs \<noteq> []"
  by (induction sep xs rule: join.induct) simp_all

lemma foldl_srtStep_body:
  assumes "\<forall>b\<in>set body. timeMatch b = None \<and> trim b \<noteq> []" and "cue_text cu = []"
  shows "foldl srtStep (r, Some cu) body = (r, Some (cu\<lparr>cue_text := join 32 (map trim body)\<rparr>))"
  using assms(1)
proof (induction body rule: rev_induct)
  case Nil
  from assms(2) show ?case by simp
next
  case (snoc b body)
  let ?t = "join 32 (map trim body)"
  from snoc.prems have b: "timeMatch b = None" "trim b \<noteq> []"
    and rest: "\<forall>b\<in>set body. timeMatch b = None \<and> trim b \<noteq> []"
    by simp_all
  have t: "body \<noteq> [] \<Longrightarrow> ?t \<noteq> []"
    using rest by (intro join_nonempty) simp_all
  have "?t @ (if ?t \<noteq> [] then [32] else []) @ trim b = join 32 (map trim (body @ [b]))"
    using t by (cases "body = []") (simp_all add: join_snoc)
  with snoc.IH [OF rest] b show ?case by simp
qed

lemma srtStep_keeps: "set result \<subseteq> set (fst (srtStep (result, current) line))"
  by (cases "timeMatch line"; cases current) auto

lemma foldl_srtStep_keeps: "set (fst st) \<subseteq> set (fst (foldl srtStep st lines))"
proof (induction lines arbitrary: st)
  case Nil
  show ?case by simp
next
  case (Cons line lines)
  obtain result current where st: "st = (result, current)" by (cases st)
  have "set (fst st) \<subseteq> set (fst (srtStep st line))"
    unfolding st using srtStep_keeps [of result current line] by simp
  also have "\<dots> \<subseteq> set (fst (foldl srtStep (srtStep st line) lines))"
    by (rule Cons.IH)
  finally show ?case by simp
qed

lemma srtFinish_keeps: "set (fst st) \<subseteq> set (srtFinish st)"
  by (cases st; cases "snd st") auto

lemma parseSrt_block:
  assumes l: "timeMatch l = Some (m1, m2)"
    and body: "\<forall>b\<in>set body. timeMatch b = None \<and> trim b \<noteq> []"
    and rest: "rest = [] \<or> (timeMatch (hd rest) = None \<and> trim (hd rest) = [])"
  shows "\<lparr>cue_start = replace_first 44 46 m1, cue_end = replace_first 44 46 m2,
          cue_text = join 32 (map trim body)\<rparr> \<in> set (parseSrt (pre @ l # body @ rest))"
proof -
  let ?cu = "\<lparr>cue_start = replace_first 44 46 m1, cue_end = replace_first 44 46 m2,
               cue_text = join 32 (map trim body)\<rparr>"
  obtain r c where p: "foldl srtStep ([], None) pre = (r, c)"
    by (cases "foldl srtStep ([], None) pre")
  have "foldl srtStep (r, Some \<lparr>cue_start = replace_first 44 46 m1,
          cue_end = replace_first 44 46 m2, cue_text = []\<rparr>) body = (r, Some ?cu)"
    using foldl_srtStep_body [OF body, of _ r] by simp
  then have open_cue: "foldl srtStep ([], None) (pre @ l # body) = (r, Some ?cu)"
    by (simp add: p srtStep_timecode [OF l] del: srtStep.simps)
  show ?thesis
  proof (cases rest)
    case Nil
    with open_cue show ?thesis by (simp add: parseSrt_def)
  next
    case (Cons x xs)
    with rest have x: "timeMatch x = None" "trim x = []" by simp_all
    have "foldl srtStep ([], None) (pre @ l # body @ rest) =
        foldl srtStep (srtStep (r, Some ?cu) x) xs"
      using open_cue Cons by (simp del: srtStep.simps)
    also have "srtStep (r, Some ?cu) x = (r @ [?cu], None)"
      using x by simp
    finally have "parseSrt (pre @ l # body @ rest) = srtFinish (foldl srtStep (r @ [?cu], None) xs)"
      by (simp add: parseSrt_def)
    moreover have "?cu \<in> set (fst (foldl srtStep (r @ [?cu], None) xs))"
      using foldl_srtStep_keeps [of "(r @ [?cu], None)" xs] by auto
    ultimately show ?thesis
      using srtFinish_keeps [of "foldl srtStep (r @ [?cu], None) xs"] by auto
  qed
qed

lemma foldl_assStep:
  "foldl assStep result lines =
     result @ concat (map (\<lambda>line.
        if startsWith line (js ''Dialogue:'') \<and> 10 \<le> length (split 44 line)
        then [\<lparr>cue_start = split 44 line ! 1, cue_end = split 44 line ! 2,
               cue_text = trim (stripTags (join 44 (drop 9 (split 44 line))))\<rparr>]
        else []) lines)"
  by (induction lines arbitrary: result) (simp_all add: assStep_def Let_def)

lemma extension_distinct:
  "js ''.ass'' \<noteq> js ''.srt''" "js ''.ass'' \<noteq> js ''.vtt''"
  by (simp_all add: js_def)

subsection \<open>Override tags\<close>

lemma find_close_stripTags: "find_close s = None \<Longrightarrow> find_close (stripTags s) = None"
proof (induction s rule: stripTags.induct)
  case 1
  show ?case by simp
next
  case (2 c cs)
  show ?case
  proof (cases "c = 123")
    case True
    with "2.prems" have n: "find_close cs = None"
      by (simp add: is_line_terminator_def)
    with True "2.IH" show ?thesis
      by (simp add: is_line_terminator_def)
  next
    case False
    with "2.prems" "2.IH" show ?thesis
      by (auto split: if_splits)
  qed
qed

lemma stripTags_no_tag: "\<not> hasTag (stripTags s)"
proof (induction s rule: stripTags.induct)
  case 1
  show ?case by simp
next
  case (2 c cs)
  show ?case
  proof (cases "c = 123")
    case False
    with "2.IH" show ?thesis by simp
  next
    case True
    show ?thesis
    proof (cases "find_close cs")
      case None
      with True "2.IH" find_close_stripTags [OF None] show ?thesis by simp
    next
      case (Some r)
      with True "2.IH" show ?thesis by simp
    qed
  qed
qed

lemma find_close_append: "find_close a \<noteq> None \<Longrightarrow> find_close (a @ b) \<noteq> None"
  by (induction a) (simp_all split: if_splits)

lemma hasTag_append: "hasTag a \<Longrightarrow> hasTag (a @ b)"
proof (induction a)
  case Nil
  then show ?case by simp
next
  case (Cons c a)
  from Cons.prems have "(c = 123 \<and> find_close a \<noteq> None) \<or> hasTag a"
    by simp
  then have "(c = 123 \<and> find_close (a @ b) \<noteq> None) \<or> hasTag (a @ b)"
    using Cons.IH find_close_append [of a b] by blast
  then show ?case by simp
qed

lemma hasTag_suffix: "hasTag b \<Longrightarrow> hasTag (a @ b)"
  by (induction a) auto

lemma hasTag_trim: "hasTag (trim s) \<Longrightarrow> hasTag s"
proof -
  assume t: "hasTag (trim s)"
  let ?d = "dropWhile is_ws s"
  have "?d = trim s @ rev (takeWhile is_ws (rev ?d))"
    unfolding trim_def
    by (metis rev_append rev_rev_ident takeWhile_dropWhile_id)
  with t have "hasTag ?d" by (metis hasTag_append)
  moreover have "s = takeWhile is_ws s @ ?d" by simp
  ultimately show ?thesis by (metis hasTag_suffix)
qed

subsection \<open>The reader\<close>

lemma findIndex_Some_iff:
  "findIndex p xs = Some i \<longleftrightarrow> i < length xs \<and> p (xs ! i) \<and> (\<forall>j<i. \<not> p (xs ! j))"
proof (induction xs arbitrary: i)
  case Nil
  show ?case by simp
next
  case (Cons x xs)
  show ?case
  proof (cases "p x")
    case True
    then show ?thesis by (cases i) auto
  next
    case False
    show ?thesis
    proof (cases i)
      case 0
      with False show ?thesis by auto
    next
      case (Suc k)
      have "(\<forall>j<Suc k. \<not> p ((x # xs) ! j)) \<longleftrightarrow> (\<forall>j<k. \<not> p (xs ! j))"
        using False by (auto simp: less_Suc_eq_0_disj)
      with False Suc Cons.IH [of k] show ?thesis by auto
    qed
  qed
qed

lemma findIndex_None_iff: "findIndex p xs = None \<longleftrightarrow> (\<forall>i<length xs. \<not> p (xs ! i))"
proof (induction xs)
  case Nil
  show ?case by simp
next
  case (Cons x xs)
  then show ?case by (auto simp: less_Suc_eq_0_disj)
qed

lemma js_ge_le: "js_ge x y = js_le y x"
  by (auto simp: js_ge_def js_le_def)

lemma resolver_data: "data (resolver s) = data s"
  by (simp add: resolver_def split: option.splits)

lemma js_gt_imp_ge: "js_gt x y \<Longrightarrow> js_ge x y"
  by (cases x; cases y) (auto simp: js_gt_def js_ge_def)

lemma totalDuration_cong: "data s' = data s \<Longrightarrow> totalDuration s' = totalDuration s"
  by (simp add: totalDuration_def)



section \<open>The active-cue resolver\<close>

text \<open>
  Claim C1. Whenever the elapsed time changes, by a tick or by a seek, the resolver runs on
  the new state. If some cue's interval from start to end, both ends included and both
  timestamps converted to seconds, contains the elapsed time, the active index becomes the
  index of the first such cue in sequence order; if no cue's interval contains it, the
  active index is left as it was. The elapsed time itself is not touched.
\<close>

theorem resolver_first_containing:
  assumes "data s = Some cues"
  shows "(\<forall>i. i < length cues
            \<and> js_le (timeToSeconds (cue_start (cues ! i))) (currentTime s)
            \<and> js_le (currentTime s) (timeToSeconds (cue_end (cues ! i)))
            \<and> (\<forall>j<i. \<not> (js_le (timeToSeconds (cue_start (cues ! j))) (currentTime s)
                          \<and> js_le (currentTime s) (timeToSeconds (cue_end (cues ! j)))))
          \<longrightarrow> activeLineIndex (resolver s) = Some i)
       \<and> ((\<forall>i<length cues. \<not> (js_le (timeToSeconds (cue_start (cues ! i))) (currentTime s)
                          \<and> js_le (currentTime s) (timeToSeconds (cue_end (cues ! i)))))
          \<longrightarrow> activeLineIndex (resolver s) = activeLineIndex s)
       \<and> currentTime (resolver s) = currentTime s"
proof -
  let ?p = "\<lambda>line. js_ge (currentTime s) (timeToSeconds (cue_start line))
                   \<and> js_le (currentTime s) (timeToSeconds (cue_end line))"
  have hit: "activeLineIndex (resolver s) = Some i" if "findIndex ?p cues = Some i" for i
    using assms that by (simp add: resolver_def)
  have miss: "activeLineIndex (resolver s) = activeLineIndex s" if "findIndex ?p cues = None"
    using assms that by (simp add: resolver_def)
  have time: "currentTime (resolver s) = currentTime s"
    using assms by (simp add: resolver_def split: option.splits)
  have first: "activeLineIndex (resolver s) = Some i"
    if "i < length cues" "?p (cues ! i)" "\<forall>j<i. \<not> ?p (cues ! j)" for i
    using hit [of i] that by (simp add: findIndex_Some_iff)
  have none: "activeLineIndex (resolver s) = activeLineIndex s"
    if "\<forall>i<length cues. \<not> ?p (cues ! i)"
    using miss that by (simp add: findIndex_None_iff)
  show ?thesis
    using first none time unfolding js_ge_le by blast
qed

theorem resolver_first_containing_witness:
  "activeLineIndex (resolver (seekInput (js ''1'') (loaded demoCues))) = Some 0
   \<and> activeLineIndex
        (resolver (seekInput (js ''2.2'') (resolver (seekInput (js ''1'') (loaded demoCues)))))
      = Some 0"
proof -
  let ?s1 = "seekInput (js ''1'') (loaded demoCues)"
  let ?s2 = "seekInput (js ''2.2'') (resolver ?s1)"
  have d1: "data ?s1 = Some demoCues"
    by (simp add: seekInput_def loaded_def)
  have t1: "parseFloat (js ''1'') = Fin 1"
    by (simp add: js_eval)
  have a1: "activeLineIndex (resolver ?s1) = Some 0"
    by (rule resolver_first_containing [OF d1, THEN conjunct1, THEN spec, THEN mp])
      (simp add: seekInput_def t1 demoCues_def demo_seconds js_le_def)
  have d2: "data ?s2 = Some demoCues"
    using d1 by (simp add: seekInput_def resolver_data)
  have t2: "parseFloat (js ''2.2'') = Fin (11 / 5)"
    by (simp add: js_eval)
  have "activeLineIndex (resolver ?s2) = activeLineIndex ?s2"
    by (rule resolver_first_containing [OF d2, THEN conjunct2, THEN conjunct1, THEN mp])
      (simp add: seekInput_def t2 demoCues_def demo_seconds js_le_def less_Suc_eq)
  also have "activeLineIndex ?s2 = Some 0"
    using a1 by (simp add: seekInput_def)
  finally show ?thesis using a1 by simp
qed

section \<open>Seeking\<close>

text \<open>
  Claim C5 says that after a seek the elapsed time is the value sought, clamped to the
  interval from 0 to the total duration. The click on a line does not keep to it. For the
  document whose only cue runs from 1 second to 1.005 seconds, as the parser reads it from
  its \<^verbatim>\<open>.srt\<close> file, the click on the cue stores the elapsed time 1.01 seconds, above
  the total duration of 1.005 seconds. The comment in \<^verbatim>\<open>handleJumpToLine\<close> gives the
  offset the purpose of falling within the range of the line, which it misses for a cue
  shorter than 10 milliseconds; the interval callback and the range input both keep the
  elapsed time within the bounds.
\<close>

theorem seek_to_cue_exceeds_total:
  "parseSubtitles shortSrt (js ''.srt'') = shortCue
   \<and> handleJumpToLine 0 (loaded shortCue) =
     Inr ((loaded shortCue)\<lparr>currentTime := Fin (101 / 100), activeLineIndex := Some 0,
            isTranslating := True, requests := [js ''Hi'']\<rparr>)
   \<and> totalDuration ((loaded shortCue)\<lparr>currentTime := Fin (101 / 100),
          activeLineIndex := Some 0, isTranslating := True, requests := [js ''Hi'']\<rparr>)
       = Fin (201 / 200)
   \<and> \<not> js_le
         (currentTime ((loaded shortCue)\<lparr>currentTime := Fin (101 / 100),
            activeLineIndex := Some 0, isTranslating := True, requests := [js ''Hi'']\<rparr>))
         (totalDuration ((loaded shortCue)\<lparr>currentTime := Fin (101 / 100),
            activeLineIndex := Some 0, isTranslating := True, requests := [js ''Hi'']\<rparr>))"
proof -
  have t: "trim (js ''Hi'') \<noteq> []"
    by (simp add: js_eval)
  have p: "parseSubtitles shortSrt (js ''.srt'') = shortCue"
    by (simp add: shortSrt_def shortCue_def srt_eval)
  have j: "handleJumpToLine 0 (loaded shortCue) =
     Inr ((loaded shortCue)\<lparr>currentTime := Fin (101 / 100), activeLineIndex := Some 0,
            isTranslating := True, requests := [js ''Hi'']\<rparr>)"
    by (simp add: handleJumpToLine_def handleTranslate_def element_def loaded_def shortCue_def
        short_seconds truthy_def t)
  have d: "totalDuration ((loaded shortCue)\<lparr>currentTime := Fin (101 / 100),
          activeLineIndex := Some 0, isTranslating := True, requests := [js ''Hi'']\<rparr>)
       = Fin (201 / 200)"
    by (simp add: loaded_def shortCue_def short_seconds totalDuration_def)
  show ?thesis
    unfolding d using p j by (simp add: js_le_def)
qed




section \<open>The playback timer\<close>

text \<open>
  Claim C6. While the clock is playing and its interval is running, a tick whose recomputed
  elapsed time reaches or exceeds the total duration stops the clock and sets the elapsed
  time to exactly the total duration; any other tick keeps the clock playing at the
  recomputed time. So after a tick the clock is never playing with an elapsed time above
  the total duration.
\<close>

theorem tick_stops_at_end:
  assumes "isPlaying s" and "timer s = Some startTime"
  shows "(js_ge (js_div (js_sub now startTime) (Fin 1000)) (totalDuration s)
            \<longrightarrow> \<not> isPlaying (tick now s) \<and> currentTime (tick now s) = totalDuration s)
       \<and> (\<not> js_ge (js_div (js_sub now startTime) (Fin 1000)) (totalDuration s)
            \<longrightarrow> isPlaying (tick now s)
              \<and> currentTime (tick now s) = js_div (js_sub now startTime) (Fin 1000))
       \<and> \<not> (isPlaying (tick now s)
              \<and> js_gt (currentTime (tick now s)) (totalDuration (tick now s)))"
proof -
  let ?elapsed = "js_div (js_sub now startTime) (Fin 1000)"
  have total: "totalDuration (tick now s) = totalDuration s"
    using assms by (intro totalDuration_cong) (simp add: tick_def Let_def)
  show ?thesis
  proof (cases "js_ge ?elapsed (totalDuration s)")
    case True
    with assms show ?thesis by (simp add: tick_def Let_def)
  next
    case False
    with assms have "isPlaying (tick now s)" "currentTime (tick now s) = ?elapsed"
      by (simp_all add: tick_def Let_def)
    moreover from False have "\<not> js_gt ?elapsed (totalDuration s)"
      using js_gt_imp_ge by blast
    ultimately show ?thesis using False total by simp
  qed
qed

theorem tick_stops_at_end_witness:
  "\<not> isPlaying (tick (Fin 5050) (playbackEffect (Fin 1000) (togglePlay (loaded demoCues))))
   \<and> currentTime (tick (Fin 5050) (playbackEffect (Fin 1000) (togglePlay (loaded demoCues))))
      = Fin 4"
proof -
  let ?s = "playbackEffect (Fin 1000) (togglePlay (loaded demoCues))"
  have p: "isPlaying ?s"
    by (simp add: playbackEffect_def togglePlay_def loaded_def)
  have t: "timer ?s = Some (Fin 1000)"
    by (simp add: playbackEffect_def togglePlay_def loaded_def js_sub_def)
  have d: "totalDuration ?s = Fin 4"
    by (simp add: playbackEffect_def togglePlay_def loaded_def totalDuration_def demoCues_def
        demo_seconds)
  show ?thesis
    using tick_stops_at_end [OF p t, of "Fin 5050"]
    by (simp add: d js_sub_def js_ge_def)
qed

section \<open>Line translation requests\<close>

text \<open>
  Claim C7, as the specification states it, fails in two ways. The flag that the guard
  tests is the one of the render the call belongs to: a second call from the same render
  does not see the flag raised by the first, and sends a second request. And the cache is
  tested for truth: an empty translation, which is what is stored when the response has no
  text, does not stop the next call, here made after the first request has settled and
  the component has rendered again.
\<close>

theorem translate_twice_counterexample:
  "handleTranslate 0 (loaded demoCues) (loaded demoCues) =
     Inr ((loaded demoCues)\<lparr>isTranslating := True, requests := [js ''Hello'']\<rparr>)
   \<and> handleTranslate 0 (loaded demoCues)
       ((loaded demoCues)\<lparr>isTranslating := True, requests := [js ''Hello'']\<rparr>) =
     Inr ((loaded demoCues)\<lparr>isTranslating := True, requests := [js ''Hello'', js ''Hello'']\<rparr>)
   \<and> translateSettled 0 (Fulfilled None)
       ((loaded demoCues)\<lparr>isTranslating := True, requests := [js ''Hello'']\<rparr>) =
     (loaded demoCues)\<lparr>lineTranslations := Map.empty(0 \<mapsto> []), requests := [js ''Hello'']\<rparr>
   \<and> lineTranslations
       ((loaded demoCues)\<lparr>lineTranslations := Map.empty(0 \<mapsto> []), requests := [js ''Hello'']\<rparr>) 0
     = Some []
   \<and> handleTranslate 0
       ((loaded demoCues)\<lparr>lineTranslations := Map.empty(0 \<mapsto> []), requests := [js ''Hello'']\<rparr>)
       ((loaded demoCues)\<lparr>lineTranslations := Map.empty(0 \<mapsto> []), requests := [js ''Hello'']\<rparr>) =
     Inr ((loaded demoCues)\<lparr>lineTranslations := Map.empty(0 \<mapsto> []), isTranslating := True,
            requests := [js ''Hello'', js ''Hello'']\<rparr>)"
proof -
  have t: "trim (js ''Hello'') \<noteq> []"
    by (simp add: js_eval)
  show ?thesis
    by (simp add: handleTranslate_def element_def loaded_def demoCues_def truthy_def t)
qed

text \<open>
  Claim C7, amended. For every valid cue index, a call of \<^verbatim>\<open>handleTranslate\<close> is a no-op
  when, in the render the call belongs to, the line-level flag is raised or a non-empty
  translation is cached for the index. From a render where neither holds and the text of
  the cue is not blank, the first call raises the flag and sends exactly one request, with
  the text of the cue; a second call made before the first has settled is a no-op, so
  that the two calls send exactly one request, provided the component has rendered again
  between them; a second call from the same render sends the request a second time. Two
  calls with a render between them send at most one request in every state.
\<close>

theorem translate_requests_coalesced:
  assumes "data render = Some cues" and "i < length cues"
  shows "(truthy (lineTranslations render i) \<or> isTranslating render \<longrightarrow>
            handleTranslate i render s = Inr s)
       \<and> (\<not> truthy (lineTranslations render i) \<and> \<not> isTranslating render
            \<and> trim (cue_text (cues ! i)) \<noteq> [] \<longrightarrow>
          (\<exists>s1. handleTranslate i render render = Inr s1 \<and> isTranslating s1
             \<and> requests s1 = requests render @ [cue_text (cues ! i)]
             \<and> handleTranslate i s1 s1 = Inr s1
             \<and> (\<exists>s2. handleTranslate i render s1 = Inr s2
                  \<and> requests s2 = requests render @ [cue_text (cues ! i), cue_text (cues ! i)])))
       \<and> (\<exists>s1 s2. handleTranslate i render render = Inr s1 \<and> handleTranslate i s1 s1 = Inr s2
             \<and> length (requests s2) \<le> Suc (length (requests render)))"
proof -
  have skip: "handleTranslate i render s = Inr s"
    if "truthy (lineTranslations render i) \<or> isTranslating render" for s
    using assms that by (auto simp: handleTranslate_def)
  have blank: "handleTranslate i render s = Inr s" if "trim (cue_text (cues ! i)) = []" for s
    using assms that by (simp add: handleTranslate_def element_def)
  have sent: "\<exists>s1. handleTranslate i render render = Inr s1 \<and> isTranslating s1
             \<and> requests s1 = requests render @ [cue_text (cues ! i)]
             \<and> handleTranslate i s1 s1 = Inr s1
             \<and> (\<exists>s2. handleTranslate i render s1 = Inr s2
                  \<and> requests s2 = requests render @ [cue_text (cues ! i), cue_text (cues ! i)])"
    if "\<not> truthy (lineTranslations render i)" "\<not> isTranslating render"
      "trim (cue_text (cues ! i)) \<noteq> []"
    using assms that by (simp add: handleTranslate_def element_def)
  have "\<exists>s1 s2. handleTranslate i render render = Inr s1 \<and> handleTranslate i s1 s1 = Inr s2
             \<and> length (requests s2) \<le> Suc (length (requests render))"
  proof (cases "truthy (lineTranslations render i) \<or> isTranslating render
      \<or> trim (cue_text (cues ! i)) = []")
    case True
    then have "handleTranslate i render render = Inr render" using skip blank by blast
    then show ?thesis by auto
  next
    case False
    with sent obtain s1 where "handleTranslate i render render = Inr s1"
      "requests s1 = requests render @ [cue_text (cues ! i)]" "handleTranslate i s1 s1 = Inr s1"
      by blast
    then show ?thesis by auto
  qed
  with skip sent show ?thesis by blast
qed

theorem translate_requests_coalesced_witness:
  "\<exists>s1. handleTranslate 0 (loaded demoCues) (loaded demoCues) = Inr s1 \<and> isTranslating s1
       \<and> requests s1 = [js ''Hello''] \<and> handleTranslate 0 s1 s1 = Inr s1
       \<and> (\<exists>s2. handleTranslate 0 (loaded demoCues) s1 = Inr s2
            \<and> requests s2 = [js ''Hello'', js ''Hello''])"
proof -
  have d: "data (loaded demoCues) = Some demoCues" and i: "0 < length demoCues"
    by (simp_all add: loaded_def demoCues_def)
  have pre: "\<not> truthy (lineTranslations (loaded demoCues) 0) \<and> \<not> isTranslating (loaded demoCues)
      \<and> trim (cue_text (demoCues ! 0)) \<noteq> []"
    by (simp add: loaded_def truthy_def demoCues_def js_eval)
  have r: "requests (loaded demoCues) @ [cue_text (demoCues ! 0)] = [js ''Hello'']"
    "requests (loaded demoCues) @ [cue_text (demoCues ! 0), cue_text (demoCues ! 0)]
      = [js ''Hello'', js ''Hello'']"
    by (simp_all add: loaded_def demoCues_def)
  from translate_requests_coalesced [OF d i, THEN conjunct2, THEN conjunct1, THEN mp, OF pre]
  show ?thesis unfolding r .
qed

section \<open>The parser\<close>

text \<open>
  Claim C2, as the specification states it, fails: a block whose timecode line is followed
  by a blank line, or by the end of the input, is pushed with the text it has, the empty
  string. The first cue of this two-block file has an empty text, which is empty after
  trimming.
\<close>

theorem srt_empty_text_counterexample:
  "parseSubtitles blankBlockSrt (js ''.srt'') =
     [\<lparr>cue_start = js ''00:00:01.000'', cue_end = js ''00:00:02.000'', cue_text = []\<rparr>,
      \<lparr>cue_start = js ''00:00:03.000'', cue_end = js ''00:00:04.000'', cue_text = js ''Hi''\<rparr>]
   \<and> trim (cue_text \<lparr>cue_start = js ''00:00:01.000'', cue_end = js ''00:00:02.000'',
                      cue_text = []\<rparr>) = []"
  by (simp add: blankBlockSrt_def srt_eval)

text \<open>
  Claim C2, amended. For every input text parsed as \<^verbatim>\<open>.srt\<close> or \<^verbatim>\<open>.vtt\<close>, the text
  of every emitted cue has no white space around it: trimming leaves it unchanged. Every
  block is emitted, whatever its text: a line matching the timecode pattern, followed by
  text lines (lines that are not blank and do not match the pattern) up to a blank line or
  the end of the input, yields a cue with the two normalised timestamps and, as its text,
  the trimmed text lines joined by single spaces. In particular a block with no text line
  is emitted with the empty text, not discarded.
\<close>

theorem srt_blocks_emitted:
  assumes "extension = js ''.srt'' \<or> extension = js ''.vtt''"
  shows "(\<forall>c\<in>set (parseSubtitles content extension). trim (cue_text c) = cue_text c)
       \<and> (\<forall>pre l m1 m2 body rest.
            linesOf content = pre @ l # body @ rest
            \<and> timeMatch l = Some (m1, m2)
            \<and> (\<forall>b\<in>set body. timeMatch b = None \<and> trim b \<noteq> [])
            \<and> (rest = [] \<or> (timeMatch (hd rest) = None \<and> trim (hd rest) = []))
          \<longrightarrow> \<lparr>cue_start = replace_first 44 46 m1, cue_end = replace_first 44 46 m2,
                 cue_text = join 32 (map trim body)\<rparr>
                \<in> set (parseSubtitles content extension))
       \<and> (\<forall>pre l m1 m2 rest.
            linesOf content = pre @ l # rest
            \<and> timeMatch l = Some (m1, m2)
            \<and> (rest = [] \<or> (timeMatch (hd rest) = None \<and> trim (hd rest) = []))
          \<longrightarrow> \<lparr>cue_start = replace_first 44 46 m1, cue_end = replace_first 44 46 m2,
                 cue_text = []\<rparr>
                \<in> set (parseSubtitles content extension))"
proof -
  from assms have p: "parseSubtitles content extension = parseSrt (linesOf content)"
    by (auto simp: parseSubtitles_def)
  have trimmed: "trim (cue_text c) = cue_text c" if "c \<in> set (parseSrt (linesOf content))" for c
    using that by (intro trim_fixed parseSrt_text_ends)
  have block: "\<lparr>cue_start = replace_first 44 46 m1, cue_end = replace_first 44 46 m2,
                 cue_text = join 32 (map trim body)\<rparr> \<in> set (parseSrt (linesOf content))"
    if "linesOf content = pre @ l # body @ rest" "timeMatch l = Some (m1, m2)"
      "\<forall>b\<in>set body. timeMatch b = None \<and> trim b \<noteq> []"
      "rest = [] \<or> (timeMatch (hd rest) = None \<and> trim (hd rest) = [])"
    for pre l m1 m2 body rest
    unfolding that(1) using that(2-4) by (rule parseSrt_block)
  have empty: "\<lparr>cue_start = replace_first 44 46 m1, cue_end = replace_first 44 46 m2,
                 cue_text = []\<rparr> \<in> set (parseSrt (linesOf content))"
    if "linesOf content = pre @ l # rest" "timeMatch l = Some (m1, m2)"
      "rest = [] \<or> (timeMatch (hd rest) = None \<and> trim (hd rest) = [])"
    for pre l m1 m2 rest
    using block [of pre l "[]" rest m1 m2] that by simp
  from trimmed block empty show ?thesis
    unfolding p by blast
qed

theorem srt_blocks_emitted_witness:
  "trim (js ''World'') = js ''World''
   \<and> \<lparr>cue_start = js ''00:00:01.000'', cue_end = js ''00:00:02.000'', cue_text = []\<rparr>
     \<in> set (parseSubtitles blankBlockSrt (js ''.srt''))"
proof -
  note inst = srt_blocks_emitted [of "js ''.srt''"]
  have m: "\<lparr>cue_start = js ''00:00:02.500'', cue_end = js ''00:00:04.000'', cue_text = js ''World''\<rparr>
      \<in> set (parseSubtitles demoSrt (js ''.srt''))"
    by (simp add: demoSrt_parsed demoCues_def)
  have a: "trim (js ''World'') = js ''World''"
    using inst [of demoSrt, THEN conjunct1, THEN bspec, OF _ m] by simp
  let ?rest = "[[], js ''2'', js ''00:00:03,000 --> 00:00:04,000'', js ''Hi'', []]"
  have l: "linesOf blankBlockSrt = [js ''1''] @ js ''00:00:01,000 --> 00:00:02,000'' # ?rest"
    by (simp add: blankBlockSrt_def linesOf_def js_def)
  have t: "timeMatch (js ''00:00:01,000 --> 00:00:02,000'')
      = Some (js ''00:00:01,000'', js ''00:00:02,000'')"
    by (simp add: timeRegex_def stampPattern_def js_eval)
  have r: "?rest = [] \<or> (timeMatch (hd ?rest) = None \<and> trim (hd ?rest) = [])"
    by (simp add: trim_def)
  have n: "replace_first 44 46 (js ''00:00:01,000'') = js ''00:00:01.000''"
    "replace_first 44 46 (js ''00:00:02,000'') = js ''00:00:02.000''"
    by (simp_all add: js_def)
  have "\<lparr>cue_start = replace_first 44 46 (js ''00:00:01,000''),
         cue_end = replace_first 44 46 (js ''00:00:02,000''), cue_text = []\<rparr>
     \<in> set (parseSubtitles blankBlockSrt (js ''.srt''))"
    using inst [of blankBlockSrt, THEN conjunct2, THEN conjunct2, THEN spec, THEN spec,
        THEN spec, THEN spec, THEN spec, THEN mp, of "[js ''1'']"
        "js ''00:00:01,000 --> 00:00:02,000''" ?rest "js ''00:00:01,000''" "js ''00:00:02,000''"]
      l t r by simp
  with a show ?thesis unfolding n by simp
qed

text \<open>
  Claim C3, as the specification states it, fails: the parser copies the two timestamps of
  a timecode line and never compares them. A block that ends before it starts is emitted
  as it is, with a start of 5 seconds and an end of 1 second.
\<close>

theorem cue_order_counterexample:
  "parseSubtitles reversedSrt (js ''.srt'') =
     [\<lparr>cue_start = js ''00:00:05.000'', cue_end = js ''00:00:01.000'', cue_text = js ''Hi''\<rparr>]
   \<and> \<not> js_le (timeToSeconds (js ''00:00:05.000'')) (timeToSeconds (js ''00:00:01.000''))"
  by (simp add: reversedSrt_def srt_eval js_le_def)

text \<open>
  Claim C3, amended. The parser copies the timestamps of the source and does not compare
  them, so that the order of an emitted cue is the order of its source. For every input
  text parsed as \<^verbatim>\<open>.srt\<close> or \<^verbatim>\<open>.vtt\<close>, every emitted cue satisfies start \<open>\<le>\<close> end in
  seconds if the two normalised timestamps of every line matching the timecode pattern
  do; and a block (a matching line, its text lines, then a blank line or the end of the
  input) whose timestamps do not is emitted as a cue that does not. For every input text
  parsed as \<^verbatim>\<open>.ass\<close>, every emitted cue satisfies start \<open>\<le>\<close> end if fields 1 and 2 of
  every \<^verbatim>\<open>Dialogue:\<close> line of at least ten fields do; and such a line whose fields do
  not is emitted as a cue that does not.
\<close>

theorem cue_order_follows_source:
  "((extension = js ''.srt'' \<or> extension = js ''.vtt'')
      \<and> (\<forall>line\<in>set (linesOf content). \<forall>m1 m2. timeMatch line = Some (m1, m2) \<longrightarrow>
            js_le (timeToSeconds (replace_first 44 46 m1))
              (timeToSeconds (replace_first 44 46 m2)))
    \<longrightarrow> (\<forall>c\<in>set (parseSubtitles content extension).
            js_le (timeToSeconds (cue_start c)) (timeToSeconds (cue_end c))))
   \<and> ((extension = js ''.srt'' \<or> extension = js ''.vtt'')
      \<and> linesOf content = pre @ l # body @ rest
      \<and> timeMatch l = Some (m1, m2)
      \<and> (\<forall>b\<in>set body. timeMatch b = None \<and> trim b \<noteq> [])
      \<and> (rest = [] \<or> (timeMatch (hd rest) = None \<and> trim (hd rest) = []))
      \<and> \<not> js_le (timeToSeconds (replace_first 44 46 m1))
              (timeToSeconds (replace_first 44 46 m2))
    \<longrightarrow> (\<exists>c\<in>set (parseSubtitles content extension).
            \<not> js_le (timeToSeconds (cue_start c)) (timeToSeconds (cue_end c))))
   \<and> (extension = js ''.ass''
      \<and> (\<forall>line\<in>set (linesOf content).
            startsWith line (js ''Dialogue:'') \<and> 10 \<le> length (split 44 line) \<longrightarrow>
            js_le (timeToSeconds (split 44 line ! 1)) (timeToSeconds (split 44 line ! 2)))
    \<longrightarrow> (\<forall>c\<in>set (parseSubtitles content extension).
            js_le (timeToSeconds (cue_start c)) (timeToSeconds (cue_end c))))
   \<and> (extension = js ''.ass''
      \<and> line \<in> set (linesOf content)
      \<and> startsWith line (js ''Dialogue:'') \<and> 10 \<le> length (split 44 line)
      \<and> \<not> js_le (timeToSeconds (split 44 line ! 1)) (timeToSeconds (split 44 line ! 2))
    \<longrightarrow> (\<exists>c\<in>set (parseSubtitles content extension).
            \<not> js_le (timeToSeconds (cue_start c)) (timeToSeconds (cue_end c))))"
proof -
  let ?le = "\<lambda>c. js_le (timeToSeconds (cue_start c)) (timeToSeconds (cue_end c))"
  have srt_all: "?le c"
    if ext: "extension = js ''.srt'' \<or> extension = js ''.vtt''"
      and src: "\<forall>line\<in>set (linesOf content). \<forall>m1 m2. timeMatch line = Some (m1, m2) \<longrightarrow>
            js_le (timeToSeconds (replace_first 44 46 m1))
              (timeToSeconds (replace_first 44 46 m2))"
      and c: "c \<in> set (parseSubtitles content extension)" for c
  proof (rule parseSrt_invariant [where c = c and lines = "linesOf content"])
    fix line m1 m2
    assume "line \<in> set (linesOf content)" "timeMatch line = Some (m1, m2)"
    with src
    show "?le \<lparr>cue_start = replace_first 44 46 m1, cue_end = replace_first 44 46 m2,
                cue_text = []\<rparr>"
      by simp
  next
    fix line :: jsstring and cur :: cue
    assume "?le cur"
    then show "?le (cur\<lparr>cue_text :=
        cue_text cur @ (if cue_text cur \<noteq> [] then [32] else []) @ trim line\<rparr>)"
      by simp
  next
    from ext c show "c \<in> set (parseSrt (linesOf content))"
      by (auto simp: parseSubtitles_def)
  qed
  have srt_one: "\<exists>c\<in>set (parseSubtitles content extension). \<not> ?le c"
    if ext: "extension = js ''.srt'' \<or> extension = js ''.vtt''"
      and "linesOf content = pre @ l # body @ rest" "timeMatch l = Some (m1, m2)"
      "\<forall>b\<in>set body. timeMatch b = None \<and> trim b \<noteq> []"
      "rest = [] \<or> (timeMatch (hd rest) = None \<and> trim (hd rest) = [])"
      and bad: "\<not> js_le (timeToSeconds (replace_first 44 46 m1))
              (timeToSeconds (replace_first 44 46 m2))"
  proof -
    let ?cu = "\<lparr>cue_start = replace_first 44 46 m1, cue_end = replace_first 44 46 m2,
                 cue_text = join 32 (map trim body)\<rparr>"
    have "?cu \<in> set (parseSrt (linesOf content))"
      unfolding that(2) using that(3-5) by (rule parseSrt_block)
    with ext have "?cu \<in> set (parseSubtitles content extension)"
      by (auto simp: parseSubtitles_def)
    moreover from bad have "\<not> ?le ?cu" by simp
    ultimately show ?thesis by blast
  qed
  have ass: "parseSubtitles content extension =
     concat (map (\<lambda>line.
        if startsWith line (js ''Dialogue:'') \<and> 10 \<le> length (split 44 line)
        then [\<lparr>cue_start = split 44 line ! 1, cue_end = split 44 line ! 2,
               cue_text = trim (stripTags (join 44 (drop 9 (split 44 line))))\<rparr>]
        else []) (linesOf content))"
    if "extension = js ''.ass''"
    using that by (simp add: parseSubtitles_def extension_distinct parseAss_def foldl_assStep)
  have ass_all: "?le c"
    if ext: "extension = js ''.ass''"
      and src: "\<forall>line\<in>set (linesOf content).
            startsWith line (js ''Dialogue:'') \<and> 10 \<le> length (split 44 line) \<longrightarrow>
            js_le (timeToSeconds (split 44 line ! 1)) (timeToSeconds (split 44 line ! 2))"
      and c: "c \<in> set (parseSubtitles content extension)" for c
  proof -
    from c obtain line where "line \<in> set (linesOf content)"
      and "startsWith line (js ''Dialogue:'') \<and> 10 \<le> length (split 44 line)"
      and "cue_start c = split 44 line ! 1" "cue_end c = split 44 line ! 2"
      unfolding ass [OF ext] by (auto split: if_splits)
    with src show ?thesis by simp
  qed
  have ass_one: "\<exists>c\<in>set (parseSubtitles content extension). \<not> ?le c"
    if ext: "extension = js ''.ass''"
      and line: "line \<in> set (linesOf content)"
        "startsWith line (js ''Dialogue:'') \<and> 10 \<le> length (split 44 line)"
      and bad: "\<not> js_le (timeToSeconds (split 44 line ! 1)) (timeToSeconds (split 44 line ! 2))"
  proof -
    let ?cu = "\<lparr>cue_start = split 44 line ! 1, cue_end = split 44 line ! 2,
               cue_text = trim (stripTags (join 44 (drop 9 (split 44 line))))\<rparr>"
    from line have "?cu \<in> set (parseSubtitles content extension)"
      unfolding ass [OF ext] by auto
    moreover from bad have "\<not> ?le ?cu" by simp
    ultimately show ?thesis by blast
  qed
  show ?thesis
    using srt_all srt_one ass_all ass_one by blast
qed

theorem cue_order_follows_source_witness:
  "js_le (timeToSeconds (js ''00:00:02.500'')) (timeToSeconds (js ''00:00:04.000''))
   \<and> (\<exists>c\<in>set (parseSubtitles reversedSrt (js ''.srt'')).
        \<not> js_le (timeToSeconds (cue_start c)) (timeToSeconds (cue_end c)))"
proof -
  have m: "\<lparr>cue_start = js ''00:00:02.500'', cue_end = js ''00:00:04.000'', cue_text = js ''World''\<rparr>
      \<in> set (parseSubtitles demoSrt (js ''.srt''))"
    by (simp add: demoSrt_parsed demoCues_def)
  have src: "(js ''.srt'' = js ''.srt'' \<or> js ''.srt'' = js ''.vtt'')
      \<and> (\<forall>line\<in>set (linesOf demoSrt). \<forall>m1 m2. timeMatch line = Some (m1, m2) \<longrightarrow>
        js_le (timeToSeconds (replace_first 44 46 m1)) (timeToSeconds (replace_first 44 46 m2)))"
    by (simp add: demoSrt_lines timeRegex_def stampPattern_def js_eval js_le_def)
  have a: "js_le (timeToSeconds (js ''00:00:02.500'')) (timeToSeconds (js ''00:00:04.000''))"
    using cue_order_follows_source [of "js ''.srt''" demoSrt, THEN conjunct1, THEN mp, OF src,
        THEN bspec, OF m]
    by simp
  let ?rest = "[[] :: jsstring]"
  have l: "linesOf reversedSrt =
      [js ''1''] @ js ''00:00:05,000 --> 00:00:01,000'' # [js ''Hi''] @ ?rest"
    by (simp add: reversedSrt_def linesOf_def js_def)
  have t: "timeMatch (js ''00:00:05,000 --> 00:00:01,000'')
      = Some (js ''00:00:05,000'', js ''00:00:01,000'')"
    by (simp add: timeRegex_def stampPattern_def js_eval)
  have b: "\<forall>b\<in>set [js ''Hi'']. timeMatch b = None \<and> trim b \<noteq> []"
    by (simp add: timeRegex_def stampPattern_def js_eval)
  have r: "?rest = [] \<or> (timeMatch (hd ?rest) = None \<and> trim (hd ?rest) = [])"
    by (simp add: trim_def)
  have bad: "\<not> js_le (timeToSeconds (replace_first 44 46 (js ''00:00:05,000'')))
      (timeToSeconds (replace_first 44 46 (js ''00:00:01,000'')))"
    by (simp add: js_eval js_le_def)
  have "\<exists>c\<in>set (parseSubtitles reversedSrt (js ''.srt'')).
        \<not> js_le (timeToSeconds (cue_start c)) (timeToSeconds (cue_end c))"
    by (rule cue_order_follows_source [of "js ''.srt''" reversedSrt "[js ''1'']"
          "js ''00:00:05,000 --> 00:00:01,000''" "[js ''Hi'']" ?rest
          "js ''00:00:05,000''" "js ''00:00:01,000''",
          THEN conjunct2, THEN conjunct1, THEN mp])
      (use l t b r bad in simp)
  with a show ?thesis by simp
qed

text \<open>
  Claim C4. For every input text parsed as \<^verbatim>\<open>.ass\<close>, the cues are, in the order of the
  lines, one cue for each line that begins with \<^verbatim>\<open>Dialogue:\<close> and splits on commas into
  at least ten fields, and nothing for any other line, so that a dialogue line of fewer
  than ten fields is skipped. The cue of an accepted line has field 1 as its start and
  field 2 as its end, both verbatim, and as its text the fields from index 9 on joined
  again with commas, with the matches of \<^verbatim>\<open>{...}\<close> deleted and the result trimmed; no
  such match is left in the text of an emitted cue. The witness is the dialogue line of the
  specification, after a dialogue line of nine fields.
\<close>

theorem ass_dialogue_cues:
  "parseSubtitles content (js ''.ass'') =
     concat (map (\<lambda>line.
        if startsWith line (js ''Dialogue:'') \<and> 10 \<le> length (split 44 line)
        then [\<lparr>cue_start = split 44 line ! 1, cue_end = split 44 line ! 2,
               cue_text = trim (stripTags (join 44 (drop 9 (split 44 line))))\<rparr>]
        else []) (linesOf content))
   \<and> (\<forall>c\<in>set (parseSubtitles content (js ''.ass'')). \<not> hasTag (cue_text c))"
proof -
  have eq: "parseSubtitles content (js ''.ass'') =
     concat (map (\<lambda>line.
        if startsWith line (js ''Dialogue:'') \<and> 10 \<le> length (split 44 line)
        then [\<lparr>cue_start = split 44 line ! 1, cue_end = split 44 line ! 2,
               cue_text = trim (stripTags (join 44 (drop 9 (split 44 line))))\<rparr>]
        else []) (linesOf content))"
    by (simp add: parseSubtitles_def extension_distinct parseAss_def foldl_assStep)
  have "\<not> hasTag (cue_text c)" if "c \<in> set (parseSubtitles content (js ''.ass''))" for c
  proof -
    from that obtain line where
      "cue_text c = trim (stripTags (join 44 (drop 9 (split 44 line))))"
      unfolding eq by (auto split: if_splits)
    then show ?thesis
      using hasTag_trim stripTags_no_tag by metis
  qed
  with eq show ?thesis by blast
qed

theorem ass_dialogue_cues_witness:
  "length (split 44 (js ''Dialogue: 0,0:00:00.00,0:00:01.00,Default,,0,0,0,too short'')) = 9
   \<and> parseSubtitles demoAss (js ''.ass'') =
     [\<lparr>cue_start = js ''0:00:01.00'', cue_end = js ''0:00:03.00'', cue_text = js ''Hi there''\<rparr>]"
proof -
  have l: "linesOf demoAss =
     [js ''[Events]'',
      js ''Dialogue: 0,0:00:00.00,0:00:01.00,Default,,0,0,0,too short'',
      js ''Dialogue: 0,0:00:01.00,0:00:03.00,Default,,0,0,0,,{'' @ [92] @ js ''i1}Hi there{''
        @ [92] @ js ''i0}'']"
    by (simp add: demoAss_def linesOf_def js_def)
  show ?thesis
    unfolding ass_dialogue_cues [of demoAss, THEN conjunct1] l
    by (simp add: js_eval)
qed

text \<open>
  Claim C9. In the \<^verbatim>\<open>.srt\<close>/\<^verbatim>\<open>.vtt\<close> parser, let a line \<open>l1\<close> match the timecode
  pattern, and let a second matching line \<open>l2\<close> follow it with no blank line in between.
  Then the cue opened by \<open>l1\<close> is never emitted: the output is the output for the input
  without \<open>l1\<close> and the lines between the two. At \<open>l2\<close> the open cue is replaced by a
  cue with the timestamps of \<open>l2\<close> and the empty text, and nothing is pushed.
\<close>

theorem open_cue_overwritten:
  assumes "extension = js ''.srt'' \<or> extension = js ''.vtt''"
    and "linesOf content = pre @ l1 # mid @ l2 # post"
    and "linesOf content' = pre @ l2 # post"
    and "timeMatch l1 \<noteq> None"
    and "timeMatch l2 = Some (m1, m2)"
    and "\<forall>m\<in>set mid. trim m \<noteq> []"
  shows "parseSubtitles content extension = parseSubtitles content' extension
       \<and> srtStep (result, Some cur) l2 =
           (result, Some \<lparr>cue_start = replace_first 44 46 m1,
                          cue_end = replace_first 44 46 m2, cue_text = []\<rparr>)"
proof -
  have "parseSrt (pre @ l1 # mid @ l2 # post) = parseSrt (pre @ l2 # post)"
    unfolding parseSrt_def
    by (simp only: foldl_srtStep_skip [OF assms(4) assms(5) assms(6)])
  with assms(1-3) have "parseSubtitles content extension = parseSubtitles content' extension"
    by (auto simp: parseSubtitles_def)
  with assms(5) show ?thesis by simp
qed

theorem open_cue_overwritten_witness:
  "parseSubtitles runOnSrt (js ''.srt'') =
     [\<lparr>cue_start = js ''00:00:03.000'', cue_end = js ''00:00:04.000'', cue_text = js ''second''\<rparr>]"
proof -
  have a: "linesOf runOnSrt =
      [] @ js ''00:00:01,000 --> 00:00:02,000'' # [js ''first'']
         @ js ''00:00:03,000 --> 00:00:04,000'' # [js ''second'']"
    by (simp add: runOnSrt_def linesOf_def js_def)
  have b: "linesOf runOnTail = [] @ js ''00:00:03,000 --> 00:00:04,000'' # [js ''second'']"
    by (simp add: runOnTail_def linesOf_def js_def)
  have l1: "timeMatch (js ''00:00:01,000 --> 00:00:02,000'') \<noteq> None"
    by (simp add: timeRegex_def stampPattern_def js_eval)
  have l2: "timeMatch (js ''00:00:03,000 --> 00:00:04,000'')
      = Some (js ''00:00:03,000'', js ''00:00:04,000'')"
    by (simp add: timeRegex_def stampPattern_def js_eval)
  have mid: "\<forall>m\<in>set [js ''first'']. trim m \<noteq> []"
    by (simp add: js_eval)
  have tail: "parseSubtitles runOnTail (js ''.srt'') =
     [\<lparr>cue_start = js ''00:00:03.000'', cue_end = js ''00:00:04.000'', cue_text = js ''second''\<rparr>]"
    by (simp add: runOnTail_def srt_eval)
  from open_cue_overwritten [OF _ a b l1 l2 mid, of "js ''.srt''"] tail
  show ?thesis by simp
qed

text \<open>
  Claim C10. Every cue emitted by the \<^verbatim>\<open>.srt\<close>/\<^verbatim>\<open>.vtt\<close> parser has a start and an
  end of the canonical form \<^verbatim>\<open>HH:MM:SS.mmm\<close>: two digits each for hours, minutes and
  seconds, three digits for the milliseconds, and a period before them.
\<close>

theorem srt_timestamps_canonical:
  assumes "extension = js ''.srt'' \<or> extension = js ''.vtt''"
    and "c \<in> set (parseSubtitles content extension)"
  shows "canonical (cue_start c) \<and> canonical (cue_end c)"
proof -
  from assms have c: "c \<in> set (parseSrt (linesOf content))"
    by (auto simp: parseSubtitles_def)
  show ?thesis
  proof (rule parseSrt_invariant [where c = c and lines = "linesOf content"])
    fix line m1 m2
    assume "timeMatch line = Some (m1, m2)"
    from timeMatch_groups [OF this]
    show "canonical (cue_start \<lparr>cue_start = replace_first 44 46 m1,
              cue_end = replace_first 44 46 m2, cue_text = []\<rparr>)
        \<and> canonical (cue_end \<lparr>cue_start = replace_first 44 46 m1,
              cue_end = replace_first 44 46 m2, cue_text = []\<rparr>)"
      by (simp add: stamp_normalised)
  next
    fix line :: jsstring and cur :: cue
    assume "canonical (cue_start cur) \<and> canonical (cue_end cur)"
    then show "canonical (cue_start (cur\<lparr>cue_text :=
              cue_text cur @ (if cue_text cur \<noteq> [] then [32] else []) @ trim line\<rparr>))
        \<and> canonical (cue_end (cur\<lparr>cue_text :=
              cue_text cur @ (if cue_text cur \<noteq> [] then [32] else []) @ trim line\<rparr>))"
      by simp
  next
    show "c \<in> set (parseSrt (linesOf content))" by (rule c)
  qed
qed

theorem srt_timestamps_canonical_witness:
  "\<lparr>cue_start = js ''00:00:02.500'', cue_end = js ''00:00:04.000'', cue_text = js ''World''\<rparr>
     \<in> set (parseSubtitles demoSrt (js ''.srt''))
   \<and> canonical (js ''00:00:02.500'') \<and> canonical (js ''00:00:04.000'')"
proof -
  have m: "\<lparr>cue_start = js ''00:00:02.500'', cue_end = js ''00:00:04.000'', cue_text = js ''World''\<rparr>
      \<in> set (parseSubtitles demoSrt (js ''.srt''))"
    by (simp add: demoSrt_parsed demoCues_def)
  from srt_timestamps_canonical [OF _ m] m show ?thesis by simp
qed

end
